theory Spec2Isabelle
  imports Main
begin

section \<open>Python strings\<close>

text \<open>
  A Python \<open>str\<close> is a sequence of Unicode code points, so it is a list of
  code point numbers here. \<open>str\<close> turns a literal of this text into such a
  list: a character of a literal has a code from 0 to 255, which is its Unicode
  code point.
\<close>

type_synonym pystr = "nat list"

definition str :: "string \<Rightarrow> pystr" where
  "str cs = map of_char cs"

text \<open>
  The characters \<open>str.strip()\<close> removes, which are those of \<open>str.isspace\<close>:
  tab to carriage return, the separators U+001C to U+001F, the space, U+0085,
  U+00A0, U+1680, U+2000 to U+200A, U+2028, U+2029, U+202F, U+205F and U+3000.
\<close>

definition is_space :: "nat \<Rightarrow> bool" where
  "is_space c =
     ((0x09 \<le> c \<and> c \<le> 0x0D) \<or> (0x1C \<le> c \<and> c \<le> 0x20) \<or>
      c = 0x85 \<or> c = 0xA0 \<or> c = 0x1680 \<or> (0x2000 \<le> c \<and> c \<le> 0x200A) \<or>
      c = 0x2028 \<or> c = 0x2029 \<or> c = 0x202F \<or> c = 0x205F \<or> c = 0x3000)"

text \<open>\<open>str.strip()\<close>: the leading and the trailing whitespace go, the rest stays.\<close>

definition strip :: "pystr \<Rightarrow> pystr" where
  "strip s = rev (dropWhile is_space (rev (dropWhile is_space s)))"

text \<open>
  \<open>str.lower()\<close> on the letters A to Z. Its one use is the comparison of the
  lowered answer with \<open>'y'\<close> in \<open>delete_task\<close>; no code point other than
  \<open>Y\<close> and \<open>y\<close> is lowered to \<open>y\<close> by Python, so leaving the other
  code points as they are gives the same comparison.
\<close>

definition lower_char :: "nat \<Rightarrow> nat" where
  "lower_char c = (if 0x41 \<le> c \<and> c \<le> 0x5A then c + 0x20 else c)"

definition lower :: "pystr \<Rightarrow> pystr" where
  "lower s = map lower_char s"

section \<open>Data model of todo_app.py\<close>

text \<open>
  A task is the dict built in \<open>add_task\<close>: six fixed keys. The key \<open>'id'\<close> is the
  field \<open>id'\<close> here, as \<open>id\<close> is the identity function of HOL. Timestamps are the
  strings \<open>datetime.now().isoformat()\<close> returns; \<open>completed_at\<close> is \<open>None\<close> or
  such a string.
\<close>

record task =
  id' :: int
  title :: pystr
  description :: pystr
  completed :: bool
  created_at :: pystr
  completed_at :: "pystr option"

text \<open>The attributes of a \<open>TodoApp\<close> object.\<close>

record todo_app =
  filename :: pystr
  tasks :: "task list"
  next_id :: int

subsection \<open>The outside world\<close>

text \<open>
  Every \<open>print\<close> of the class is one constructor, with the values its f-string
  interpolates. The decoration of the text (icons, quotes) is left out; the
  constructors keep the messages apart exactly as the texts do.
\<close>

datatype message =
    ErrorLoading pystr
  | ErrorSaving pystr
  | TitleEmpty
  | TaskAdded pystr int
  | NotFound int
  | TaskUpdated int
  | DeletionCancelled
  | TaskDeleted pystr
  | AlreadyCompleted pystr
  | MarkedCompleted pystr
  | AlreadyPending pystr
  | MarkedPending pystr

text \<open>
  What a method does to the outside world, in order: a line printed, the
  confirmation question of \<open>delete_task\<close> (with the title it shows), and
  \<open>Write f ts\<close>, the attempt of \<open>save_tasks\<close> to open file \<open>f\<close> for writing and
  dump the list \<open>ts\<close> into it.
\<close>

datatype event =
    Print message
  | Prompt pystr
  | Write pystr "task list"

text \<open>
  Whether the write goes through is decided by the file system, not by the
  program: \<open>WriteFailed e\<close> is any exception raised inside the \<open>try\<close> of
  \<open>save_tasks\<close>, with its text \<open>e\<close>.
\<close>

datatype write_outcome = Written | WriteFailed pystr

section \<open>The methods of TodoApp\<close>

text \<open>
  A method takes the object and returns its result, the object after the call
  and the events of the call. What the environment decides (the clock, the
  answer typed at the prompt, the outcome of the write) is a parameter.
\<close>

type_synonym 'r operation = "todo_app \<Rightarrow> 'r \<times> todo_app \<times> event list"

text \<open>\<open>_get_next_id\<close>: 1 for the empty list, else the largest id plus one.\<close>

fun max_id :: "int \<Rightarrow> task list \<Rightarrow> int" where
  "max_id m [] = m"
| "max_id m (t # ts) = max_id (max m (id' t)) ts"

definition get_next_id :: "task list \<Rightarrow> int" where
  "get_next_id ts = (case ts of [] \<Rightarrow> 1 | t # ts' \<Rightarrow> max_id (id' t) ts' + 1)"

text \<open>
  \<open>__init__\<close>, once \<open>load_tasks\<close> has returned the list \<open>ts\<close> of task dicts.
\<close>

definition init :: "pystr \<Rightarrow> task list \<Rightarrow> todo_app" where
  "init f ts = \<lparr>filename = f, tasks = ts, next_id = get_next_id ts\<rparr>"

text \<open>
  \<open>save_tasks\<close>: one write attempt; on an exception the error is printed and
  the result is \<open>False\<close>. The object is not touched.
\<close>

definition save_tasks :: "write_outcome \<Rightarrow> bool operation" where
  "save_tasks w s =
     (case w of
        Written \<Rightarrow> (True, s, [Write (filename s) (tasks s)])
      | WriteFailed e \<Rightarrow>
          (False, s, [Write (filename s) (tasks s), Print (ErrorSaving e)]))"

text \<open>
  \<open>add_task\<close>. \<open>now\<close> is the value of \<open>datetime.now().isoformat()\<close>. The message
  of success shows the title as passed, not the stripped one. \<open>list.pop()\<close> drops
  the last element, which is \<open>butlast\<close> (the list is not empty there).
\<close>

definition add_task :: "pystr \<Rightarrow> pystr \<Rightarrow> pystr \<Rightarrow> write_outcome \<Rightarrow> bool operation" where
  "add_task ttl desc now w s =
     (if strip ttl = [] then (False, s, [Print TitleEmpty])
      else
        let t = \<lparr>id' = next_id s, title = strip ttl, description = strip desc,
                 completed = False, created_at = now, completed_at = None\<rparr>;
            s1 = s\<lparr>tasks := tasks s @ [t]\<rparr>;
            s2 = s1\<lparr>next_id := next_id s1 + 1\<rparr>;
            (ok, s3, out) = save_tasks w s2
        in if ok then (True, s3, out @ [Print (TaskAdded ttl (id' t))])
           else
             let s4 = s3\<lparr>tasks := butlast (tasks s3)\<rparr>;
                 s5 = s4\<lparr>next_id := next_id s4 - 1\<rparr>
             in (False, s5, out))"

text \<open>
  \<open>find_task_by_id\<close> returns a reference to the first dict with the id, or
  \<open>None\<close>. The reference is the position of that dict in the list: reading
  through it is \<open>ts ! i\<close>, and an assignment \<open>task[k] = v\<close> through it is
  \<open>assign\<close>, which changes that one element of the list.
\<close>

fun find_task_by_id :: "task list \<Rightarrow> int \<Rightarrow> nat option" where
  "find_task_by_id [] tid = None"
| "find_task_by_id (t # ts) tid =
     (if id' t = tid then Some 0
      else case find_task_by_id ts tid of None \<Rightarrow> None | Some i \<Rightarrow> Some (Suc i))"

definition assign :: "nat \<Rightarrow> (task \<Rightarrow> task) \<Rightarrow> todo_app \<Rightarrow> todo_app" where
  "assign i f s = s\<lparr>tasks := (tasks s)[i := f (tasks s ! i)]\<rparr>"

text \<open>
  \<open>update_task\<close>. A parameter left at its default \<open>None\<close> is \<open>None\<close> here. The
  title is checked before anything is assigned.
\<close>

definition update_task ::
  "int \<Rightarrow> pystr option \<Rightarrow> pystr option \<Rightarrow> write_outcome \<Rightarrow> bool operation" where
  "update_task tid ttl desc w s =
     (case find_task_by_id (tasks s) tid of
        None \<Rightarrow> (False, s, [Print (NotFound tid)])
      | Some i \<Rightarrow>
          if (case ttl of None \<Rightarrow> False | Some x \<Rightarrow> strip x = [])
          then (False, s, [Print TitleEmpty])
          else
            let s1 = (case ttl of None \<Rightarrow> s
                      | Some x \<Rightarrow> assign i (\<lambda>t. t\<lparr>title := strip x\<rparr>) s);
                s2 = (case desc of None \<Rightarrow> s1
                      | Some d \<Rightarrow> assign i (\<lambda>t. t\<lparr>description := strip d\<rparr>) s1);
                (ok, s3, out) = save_tasks w s2
            in if ok then (True, s3, out @ [Print (TaskUpdated tid)])
               else (False, s3, out))"

text \<open>
  \<open>delete_task\<close>. \<open>answer\<close> is the line typed at the prompt. The comprehension
  keeps every task whose id differs from \<open>tid\<close>.
\<close>

definition delete_task :: "int \<Rightarrow> pystr \<Rightarrow> write_outcome \<Rightarrow> bool operation" where
  "delete_task tid answer w s =
     (case find_task_by_id (tasks s) tid of
        None \<Rightarrow> (False, s, [Print (NotFound tid)])
      | Some i \<Rightarrow>
          let t = tasks s ! i;
              confirm = lower answer
          in if confirm \<noteq> str ''y''
             then (False, s, [Prompt (title t), Print DeletionCancelled])
             else
               let s1 = s\<lparr>tasks := filter (\<lambda>u. id' u \<noteq> tid) (tasks s)\<rparr>;
                   (ok, s2, out) = save_tasks w s1
               in if ok then (True, s2, Prompt (title t) # out @ [Print (TaskDeleted (title t))])
                  else (False, s2, Prompt (title t) # out))"

text \<open>\<open>complete_task\<close>; \<open>now\<close> is the value of \<open>datetime.now().isoformat()\<close>.\<close>

definition complete_task :: "int \<Rightarrow> pystr \<Rightarrow> write_outcome \<Rightarrow> bool operation" where
  "complete_task tid now w s =
     (case find_task_by_id (tasks s) tid of
        None \<Rightarrow> (False, s, [Print (NotFound tid)])
      | Some i \<Rightarrow>
          if completed (tasks s ! i)
          then (True, s, [Print (AlreadyCompleted (title (tasks s ! i)))])
          else
            let s1 = assign i (\<lambda>t. t\<lparr>completed := True\<rparr>) s;
                s2 = assign i (\<lambda>t. t\<lparr>completed_at := Some now\<rparr>) s1;
                (ok, s3, out) = save_tasks w s2
            in if ok then (True, s3, out @ [Print (MarkedCompleted (title (tasks s3 ! i)))])
               else (False, s3, out))"

text \<open>\<open>uncomplete_task\<close>.\<close>

definition uncomplete_task :: "int \<Rightarrow> write_outcome \<Rightarrow> bool operation" where
  "uncomplete_task tid w s =
     (case find_task_by_id (tasks s) tid of
        None \<Rightarrow> (False, s, [Print (NotFound tid)])
      | Some i \<Rightarrow>
          if \<not> completed (tasks s ! i)
          then (True, s, [Print (AlreadyPending (title (tasks s ! i)))])
          else
            let s1 = assign i (\<lambda>t. t\<lparr>completed := False\<rparr>) s;
                s2 = assign i (\<lambda>t. t\<lparr>completed_at := None\<rparr>) s1;
                (ok, s3, out) = save_tasks w s2
            in if ok then (True, s3, out @ [Print (MarkedPending (title (tasks s3 ! i)))])
               else (False, s3, out))"

text \<open>\<open>get_task_stats\<close>: the dict with the keys total, completed and pending.\<close>

record stats =
  total :: int
  completed_count :: int
  pending :: int

definition get_task_stats :: "stats operation" where
  "get_task_stats s =
     (let n = int (length (tasks s));
          c = int (length (filter completed (tasks s)));
          p = n - c
      in (\<lparr>total = n, completed_count = c, pending = p\<rparr>, s, []))"

subsection \<open>Loading\<close>

text \<open>
  The values \<open>json.load\<close> can return. A number with a fraction or an exponent
  becomes a Python float; it is kept as its literal, floating point not being
  modelled. \<open>load_tasks\<close> never looks inside the value.
\<close>

datatype json =
    JNull
  | JBool bool
  | JInt int
  | JFloat pystr
  | JStr pystr
  | JList "json list"
  | JDict "(pystr \<times> json) list"

text \<open>
  What opening and parsing the file does when the path exists: a value, or an
  exception. \<open>load_tasks\<close> catches \<open>JSONDecodeError\<close> and \<open>FileNotFoundError\<close>
  only; any other exception (\<open>OtherError\<close>) leaves the method.
\<close>

datatype read_outcome =
    Parsed json
  | JSONDecodeError pystr
  | FileNotFoundError pystr
  | OtherError pystr

text \<open>
  \<open>load_tasks\<close>: \<open>ex\<close> is the answer of \<open>os.path.exists\<close>. The result is
  \<open>Inr\<close> the value returned or \<open>Inl\<close> the exception that escapes.
\<close>

definition load_tasks :: "bool \<Rightarrow> read_outcome \<Rightarrow> (pystr + json) \<times> event list" where
  "load_tasks ex r =
     (if ex then
        (case r of
           Parsed v \<Rightarrow> (Inr v, [])
         | JSONDecodeError e \<Rightarrow> (Inr (JList []), [Print (ErrorLoading e)])
         | FileNotFoundError e \<Rightarrow> (Inr (JList []), [Print (ErrorLoading e)])
         | OtherError e \<Rightarrow> (Inl e, []))
      else (Inr (JList []), []))"

text \<open>The JSON form of a task dict, as \<open>json.dump\<close> writes it and \<open>json.load\<close> reads it.\<close>

definition json_of_task :: "task \<Rightarrow> json" where
  "json_of_task t =
     JDict [(str ''id'', JInt (id' t)),
            (str ''title'', JStr (title t)),
            (str ''description'', JStr (description t)),
            (str ''completed'', JBool (completed t)),
            (str ''created_at'', JStr (created_at t)),
            (str ''completed_at'', (case completed_at t of None \<Rightarrow> JNull | Some c \<Rightarrow> JStr c))]"

subsection \<open>Notions used by the properties\<close>

text \<open>The invariants of the data model, as executable checks on a task list.\<close>

definition ids_unique :: "task list \<Rightarrow> bool" where
  "ids_unique ts = distinct (map id' ts)"

definition titles_nonempty :: "task list \<Rightarrow> bool" where
  "titles_nonempty ts = list_all (\<lambda>t. strip (title t) \<noteq> []) ts"

definition completion_consistent :: "task list \<Rightarrow> bool" where
  "completion_consistent ts = list_all (\<lambda>t. (\<not> completed t) = (completed_at t = None)) ts"

definition counter_above :: "todo_app \<Rightarrow> bool" where
  "counter_above s = list_all (\<lambda>t. id' t < next_id s) (tasks s)"

text \<open>
  A sequence of calls of \<open>add_task\<close>, each with its title, description, clock
  value and write outcome; the object is threaded through.
\<close>

fun add_calls :: "(pystr \<times> pystr \<times> pystr \<times> write_outcome) list \<Rightarrow> todo_app \<Rightarrow> todo_app" where
  "add_calls [] s = s"
| "add_calls ((ttl, desc, now, w) # cs) s = add_calls cs (fst (snd (add_task ttl desc now w s)))"

text \<open>Whether a call attempted a save: a \<open>Write\<close> among its events.\<close>

fun is_write :: "event \<Rightarrow> bool" where
  "is_write (Write f ts) = True"
| "is_write e = False"

definition saves :: "event list \<Rightarrow> nat" where
  "saves out = length (filter is_write out)"

subsection \<open>Example objects\<close>

text \<open>A store with one pending task, as left by one successful Add on an empty store.\<close>

definition one_task :: todo_app where
  "one_task = \<lparr>filename = str ''tasks.json'',
     tasks = [\<lparr>id' = 1, title = str ''Buy milk'', description = [], completed = False,
               created_at = str ''2024-05-01T10:00:00'', completed_at = None\<rparr>],
     next_id = 2\<rparr>"

text \<open>A store with a pending task and a completed one.\<close>

definition two_tasks :: todo_app where
  "two_tasks = \<lparr>filename = str ''tasks.json'',
     tasks = [\<lparr>id' = 1, title = str ''A'', description = [], completed = False,
               created_at = str ''2024-05-01T10:00:00'', completed_at = None\<rparr>,
              \<lparr>id' = 2, title = str ''B'', description = str ''second'', completed = True,
               created_at = str ''2024-05-01T11:00:00'', completed_at = Some (str ''2024-05-02T09:30:00'')\<rparr>],
     next_id = 3\<rparr>"

text \<open>Three calls of Add with titles that are not blank; the second save fails.\<close>

definition three_calls :: "(pystr \<times> pystr \<times> pystr \<times> write_outcome) list" where
  "three_calls =
     [(str ''A'', [], str ''2024-05-03T08:00:00'', Written),
      (str '' B '', str ''second'', str ''2024-05-03T08:01:00'', WriteFailed (str ''disk full'')),
      (str ''C'', [], str ''2024-05-03T08:02:00'', Written)]"

text \<open>
  Two task dicts a file can hold that break every invariant of the data model:
  the ids are equal, the first title is blank, and in both tasks \<open>completed\<close>
  and \<open>completed_at\<close> disagree.
\<close>

definition unvalidated_tasks :: "task list" where
  "unvalidated_tasks =
     [\<lparr>id' = 1, title = str '' '', description = [], completed = True,
       created_at = str ''2024-05-01T10:00:00'', completed_at = None\<rparr>,
      \<lparr>id' = 1, title = str ''B'', description = [], completed = False,
       created_at = str ''2024-05-01T11:00:00'', completed_at = Some (str ''2024-05-02T09:30:00'')\<rparr>]"

section \<open>Facts about the helpers\<close>

text \<open>A string is stripped to nothing exactly when it is empty or all whitespace.\<close>

lemma strip_Nil_iff: "(strip s = []) = list_all is_space s"
proof (cases "dropWhile is_space s = []")
  case True
  then have "list_all is_space s"
    by (simp add: dropWhile_eq_Nil_conv list_all_iff)
  moreover have "strip s = []"
    unfolding strip_def True by simp
  ultimately show ?thesis
    by simp
next
  case False
  then have "\<not> is_space (hd (dropWhile is_space s))"
    by (rule hd_dropWhile)
  moreover have "hd (dropWhile is_space s) \<in> set (rev (dropWhile is_space s))"
    using False by simp
  ultimately have "dropWhile is_space (rev (dropWhile is_space s)) \<noteq> []"
    by (auto simp: dropWhile_eq_Nil_conv)
  moreover have "\<not> list_all is_space s"
    using False by (simp add: dropWhile_eq_Nil_conv list_all_iff)
  ultimately show ?thesis
    by (simp add: strip_def)
qed

lemma find_task_by_id_Some:
  "find_task_by_id ts tid = Some i \<Longrightarrow> i < length ts \<and> id' (ts ! i) = tid"
proof (induction ts arbitrary: i)
  case Nil
  then show ?case by simp
next
  case (Cons t ts)
  then show ?case
    by (auto split: if_splits option.splits)
qed

lemma find_task_by_id_first:
  "find_task_by_id ts tid = Some i \<Longrightarrow> j < i \<Longrightarrow> id' (ts ! j) \<noteq> tid"
proof (induction ts arbitrary: i j)
  case Nil
  then show ?case by simp
next
  case (Cons t ts)
  then show ?case
    by (cases j) (auto split: if_splits option.splits)
qed

lemma find_task_by_id_None:
  "(find_task_by_id ts tid = None) = (tid \<notin> set (map id' ts))"
  by (induction ts) (auto split: option.splits)

lemma find_task_by_id_present:
  "tid \<in> set (map id' ts) \<Longrightarrow> \<exists>i. find_task_by_id ts tid = Some i"
  using find_task_by_id_None [of ts tid] by (cases "find_task_by_id ts tid") auto

lemma map_if_id_eq_update:
  assumes "distinct (map id' ts)" and "i < length ts"
  shows "map (\<lambda>t. if id' t = id' (ts ! i) then f t else t) ts = ts[i := f (ts ! i)]"
proof (rule nth_equalityI)
  show "length (map (\<lambda>t. if id' t = id' (ts ! i) then f t else t) ts) = length (ts[i := f (ts ! i)])"
    by simp
next
  fix j
  assume "j < length (map (\<lambda>t. if id' t = id' (ts ! i) then f t else t) ts)"
  then have j: "j < length ts" by simp
  have "(id' (ts ! j) = id' (ts ! i)) = (j = i)"
    using assms j nth_eq_iff_index_eq [of "map id' ts" j i] by simp
  then show "map (\<lambda>t. if id' t = id' (ts ! i) then f t else t) ts ! j = ts[i := f (ts ! i)] ! j"
    using j by (auto simp: nth_list_update)
qed

lemma filter_id_neq_remove:
  "distinct (map id' ts) \<Longrightarrow> i < length ts \<Longrightarrow>
   filter (\<lambda>u. id' u \<noteq> id' (ts ! i)) ts = take i ts @ drop (Suc i) ts"
proof (induction ts arbitrary: i)
  case Nil
  then show ?case by simp
next
  case (Cons t ts)
  show ?case
  proof (cases i)
    case 0
    have "\<forall>u\<in>set ts. id' u \<noteq> id' t"
      using Cons.prems(1) by (force simp: image_iff)
    then have "filter (\<lambda>u. id' u \<noteq> id' t) ts = ts"
      by (simp add: filter_id_conv)
    then show ?thesis using 0 by simp
  next
    case (Suc k)
    then have k: "k < length ts" using Cons.prems(2) by simp
    then have "id' t \<noteq> id' (ts ! k)" using Cons.prems(1) by auto
    then show ?thesis
      using Suc k Cons.IH [of k] Cons.prems(1) by simp
  qed
qed

section \<open>Add\<close>

lemma save_tasks_object: "fst (snd (save_tasks w s)) = s"
  by (cases w) (simp_all add: save_tasks_def)

lemma save_tasks_ok: "fst (save_tasks w s) = (w = Written)"
  by (cases w) (simp_all add: save_tasks_def)

text \<open>
  C1. Add with a title that is not empty after stripping, when the write fails:
  the result is \<open>False\<close>, and the object after the call (task list and counter)
  is the object before it. The one save attempt carried the list with the new
  task appended.
\<close>

theorem add_task_save_failed_rollback:
  assumes "strip ttl \<noteq> []"
  shows "add_task ttl desc now (WriteFailed e) s =
           (False, s,
            [Write (filename s)
               (tasks s @ [\<lparr>id' = next_id s, title = strip ttl, description = strip desc,
                             completed = False, created_at = now, completed_at = None\<rparr>]),
             Print (ErrorSaving e)])"
  using assms by (simp add: add_task_def save_tasks_def Let_def)

theorem add_task_save_failed_rollback_witness:
  "strip (str ''Buy milk'') \<noteq> [] \<and>
   add_task (str ''Buy milk'') (str '' 2 litres '') (str ''2024-05-01T10:00:00'') (WriteFailed (str ''disk full''))
     \<lparr>filename = str ''tasks.json'', tasks = [], next_id = 1\<rparr> =
     (False, \<lparr>filename = str ''tasks.json'', tasks = [], next_id = 1\<rparr>,
      [Write (str ''tasks.json'')
         [\<lparr>id' = 1, title = str ''Buy milk'', description = str ''2 litres'',
           completed = False, created_at = str ''2024-05-01T10:00:00'', completed_at = None\<rparr>],
       Print (ErrorSaving (str ''disk full''))])"
proof -
  have h: "strip (str ''Buy milk'') \<noteq> []"
    by (simp add: strip_def is_space_def str_def)
  show ?thesis
    using h
      add_task_save_failed_rollback [OF h, of "str '' 2 litres ''" "str ''2024-05-01T10:00:00''"
        "str ''disk full''" "\<lparr>filename = str ''tasks.json'', tasks = [], next_id = 1\<rparr>"]
    by (simp add: strip_def is_space_def str_def)
qed

text \<open>
  C6. Add with a title that is empty after stripping, that is, by
  \<open>strip_Nil_iff\<close>, a title that is empty or made of whitespace only (Unicode
  whitespace included): the call returns \<open>False\<close> with the object unchanged
  (task list and counter), prints the validation message and attempts no save.
\<close>

theorem add_task_empty_title:
  assumes "strip ttl = []"
  shows "add_task ttl desc now w s = (False, s, [Print TitleEmpty])
       \<and> saves (snd (snd (add_task ttl desc now w s))) = 0"
  using assms by (simp add: add_task_def saves_def)

theorem add_task_empty_title_witness:
  "strip [0x20, 0xA0, 0x2003, 0x09] = [] \<and>
   add_task [0x20, 0xA0, 0x2003, 0x09] (str ''x'') (str ''2024-05-01T10:00:00'') Written one_task =
     (False, one_task, [Print TitleEmpty]) \<and>
   saves (snd (snd (add_task [0x20, 0xA0, 0x2003, 0x09] (str ''x'') (str ''2024-05-01T10:00:00'')
                      Written one_task))) = 0"
proof -
  have h: "strip [0x20, 0xA0, 0x2003, 0x09] = []"
    by (simp add: strip_def is_space_def)
  show ?thesis
    using h add_task_empty_title [OF h, of "str ''x''" "str ''2024-05-01T10:00:00''" Written one_task]
    by (simp add: saves_def)
qed

section \<open>Delete\<close>





text \<open>
  C5. For a store with unique ids that holds a task with the id, Delete with
  the answer y or Y removes the task at the position \<open>i\<close> where the id sits and
  nothing else: the list after the call is the list before it without its
  \<open>i\<close>-th element, the other tasks in their order and as they were. This holds
  whether or not the save goes through.
\<close>

theorem delete_task_confirmed:
  assumes "ids_unique (tasks s)" and "tid \<in> set (map id' (tasks s))" and "lower answer = str ''y''"
  shows "\<exists>i. find_task_by_id (tasks s) tid = Some i \<and> i < length (tasks s) \<and>
             id' (tasks s ! i) = tid \<and>
             fst (snd (delete_task tid answer w s)) =
               s\<lparr>tasks := take i (tasks s) @ drop (Suc i) (tasks s)\<rparr>"
proof -
  obtain i where i: "find_task_by_id (tasks s) tid = Some i"
    using find_task_by_id_present [OF assms(2)] by blast
  have il: "i < length (tasks s)" and iid: "id' (tasks s ! i) = tid"
    using find_task_by_id_Some [OF i] by simp_all
  have f: "filter (\<lambda>u. id' u \<noteq> tid) (tasks s) = take i (tasks s) @ drop (Suc i) (tasks s)"
    using filter_id_neq_remove [of "tasks s" i] assms(1) il iid
    by (simp add: ids_unique_def)
  have "fst (snd (delete_task tid answer w s)) =
          s\<lparr>tasks := filter (\<lambda>u. id' u \<noteq> tid) (tasks s)\<rparr>"
    using i assms(3)
    by (cases w) (simp_all add: delete_task_def save_tasks_def Let_def)
  then show ?thesis
    using i il iid f by simp
qed


theorem delete_task_confirmed_witness:
  "ids_unique (tasks two_tasks) \<and> 1 \<in> set (map id' (tasks two_tasks)) \<and> lower (str ''Y'') = str ''y'' \<and>
   tasks (fst (snd (delete_task 1 (str ''Y'') Written two_tasks))) =
     [\<lparr>id' = 2, title = str ''B'', description = str ''second'', completed = True,
       created_at = str ''2024-05-01T11:00:00'', completed_at = Some (str ''2024-05-02T09:30:00'')\<rparr>]"
proof -
  have h1: "ids_unique (tasks two_tasks)"
    by (simp add: two_tasks_def ids_unique_def)
  have h2: "1 \<in> set (map id' (tasks two_tasks))"
    by (simp add: two_tasks_def)
  have h3: "lower (str ''Y'') = str ''y''"
    by (simp add: lower_def lower_char_def str_def)
  have f: "find_task_by_id (tasks two_tasks) 1 = Some 0"
    by (simp add: two_tasks_def)
  show ?thesis
    using h1 h2 h3 f delete_task_confirmed [OF h1 h2 h3, of Written]
    by (auto simp: two_tasks_def)
qed

section \<open>Complete and Uncomplete\<close>

lemma complete_task_found:
  assumes "find_task_by_id (tasks s) tid = Some i"
  shows "fst (snd (complete_task tid now w s)) =
           (if completed (tasks s ! i) then s
            else s\<lparr>tasks := (tasks s)[i := (tasks s ! i)\<lparr>completed := True, completed_at := Some now\<rparr>]\<rparr>)"
proof -
  have i: "i < length (tasks s)"
    using find_task_by_id_Some [OF assms] by simp
  show ?thesis
    using assms i
    by (cases w) (simp_all add: complete_task_def assign_def save_tasks_def Let_def)
qed

lemma uncomplete_task_found:
  assumes "find_task_by_id (tasks s) tid = Some i"
  shows "fst (snd (uncomplete_task tid w s)) =
           (if \<not> completed (tasks s ! i) then s
            else s\<lparr>tasks := (tasks s)[i := (tasks s ! i)\<lparr>completed := False, completed_at := None\<rparr>]\<rparr>)"
proof -
  have i: "i < length (tasks s)"
    using find_task_by_id_Some [OF assms] by simp
  show ?thesis
    using assms i
    by (cases w) (simp_all add: uncomplete_task_def assign_def save_tasks_def Let_def)
qed

lemma complete_task_flag:
  assumes "find_task_by_id (tasks s) tid = Some i"
  shows "fst (complete_task tid now w s) = (completed (tasks s ! i) \<or> w = Written)"
  using assms
  by (cases w) (simp_all add: complete_task_def save_tasks_def Let_def)

lemma uncomplete_task_flag:
  assumes "find_task_by_id (tasks s) tid = Some i"
  shows "fst (uncomplete_task tid w s) = (\<not> completed (tasks s ! i) \<or> w = Written)"
  using assms
  by (cases w) (simp_all add: uncomplete_task_def save_tasks_def Let_def)

lemma find_task_by_id_list_update:
  assumes "find_task_by_id ts tid = Some i" and "id' t = tid"
  shows "find_task_by_id (ts[i := t]) tid = Some i"
  using assms
proof (induction ts arbitrary: i)
  case Nil
  then show ?case by simp
next
  case (Cons u us)
  then show ?case
    by (cases i) (auto split: if_splits option.splits)
qed


text \<open>
  C4. For a store with unique ids that holds a task with the id, Complete and
  then Uncomplete on that id, both saves going through, both return \<open>True\<close>,
  and the object after them is the object before with \<open>completed = False\<close> and
  \<open>completed_at = None\<close> in the task of that id: its other fields, every other
  task, the order and the counter are as before.
\<close>

theorem complete_then_uncomplete:
  assumes "ids_unique (tasks s)" and "tid \<in> set (map id' (tasks s))"
  shows "fst (complete_task tid now Written s) \<and>
         fst (uncomplete_task tid Written (fst (snd (complete_task tid now Written s)))) \<and>
         fst (snd (uncomplete_task tid Written (fst (snd (complete_task tid now Written s))))) =
           s\<lparr>tasks := map (\<lambda>t. if id' t = tid
                                then t\<lparr>completed := False, completed_at := None\<rparr>
                                else t) (tasks s)\<rparr>"
proof -
  obtain i where i: "find_task_by_id (tasks s) tid = Some i"
    using find_task_by_id_present [OF assms(2)] by blast
  have il: "i < length (tasks s)" and iid: "id' (tasks s ! i) = tid"
    using find_task_by_id_Some [OF i] by simp_all
  define s1 where "s1 = fst (snd (complete_task tid now Written s))"
  have s1: "s1 = (if completed (tasks s ! i) then s
                  else s\<lparr>tasks := (tasks s)[i := (tasks s ! i)\<lparr>completed := True, completed_at := Some now\<rparr>]\<rparr>)"
    unfolding s1_def by (rule complete_task_found [OF i])
  have r1: "fst (complete_task tid now Written s)"
    by (simp add: complete_task_flag [OF i])
  have i1: "find_task_by_id (tasks s1) tid = Some i"
    using i iid by (simp add: s1 find_task_by_id_list_update)
  have c1: "completed (tasks s1 ! i)"
    using il by (simp add: s1)
  have r2: "fst (uncomplete_task tid Written s1)"
    by (simp add: uncomplete_task_flag [OF i1])
  have "fst (snd (uncomplete_task tid Written s1)) =
          s1\<lparr>tasks := (tasks s1)[i := (tasks s1 ! i)\<lparr>completed := False, completed_at := None\<rparr>]\<rparr>"
    using c1 by (simp add: uncomplete_task_found [OF i1])
  also have "\<dots> = s\<lparr>tasks := (tasks s)[i := (tasks s ! i)\<lparr>completed := False, completed_at := None\<rparr>]\<rparr>"
    using il by (simp add: s1)
  also have "(tasks s)[i := (tasks s ! i)\<lparr>completed := False, completed_at := None\<rparr>] =
             map (\<lambda>t. if id' t = tid then t\<lparr>completed := False, completed_at := None\<rparr> else t) (tasks s)"
    using map_if_id_eq_update [of "tasks s" i "\<lambda>t. t\<lparr>completed := False, completed_at := None\<rparr>"]
      assms(1) il iid
    by (simp add: ids_unique_def)
  finally show ?thesis
    using r1 r2 by (simp add: s1_def)
qed

theorem complete_then_uncomplete_witness:
  "ids_unique (tasks two_tasks) \<and> 1 \<in> set (map id' (tasks two_tasks)) \<and>
   fst (complete_task 1 (str ''2024-05-03T08:00:00'') Written two_tasks) \<and>
   fst (uncomplete_task 1 Written
          (fst (snd (complete_task 1 (str ''2024-05-03T08:00:00'') Written two_tasks)))) \<and>
   fst (snd (uncomplete_task 1 Written
          (fst (snd (complete_task 1 (str ''2024-05-03T08:00:00'') Written two_tasks))))) = two_tasks"
proof -
  have h1: "ids_unique (tasks two_tasks)"
    by (simp add: two_tasks_def ids_unique_def)
  have h2: "1 \<in> set (map id' (tasks two_tasks))"
    by (simp add: two_tasks_def)
  show ?thesis
    using h1 h2 complete_then_uncomplete [OF h1 h2, of "str ''2024-05-03T08:00:00''"]
    by (simp add: two_tasks_def)
qed

text \<open>
  C7. For a store that holds a task with the id, a second Complete right after
  a first one returns \<open>True\<close>, leaves the object as the first call left it,
  prints only that the task is already completed and attempts no save. This
  holds whatever the clock and the write outcome of either call.
\<close>

theorem complete_twice:
  assumes "tid \<in> set (map id' (tasks s))"
  shows "\<exists>i. find_task_by_id (tasks (fst (snd (complete_task tid now1 w1 s)))) tid = Some i \<and>
             complete_task tid now2 w2 (fst (snd (complete_task tid now1 w1 s))) =
               (True, fst (snd (complete_task tid now1 w1 s)),
                [Print (AlreadyCompleted (title (tasks s ! i)))]) \<and>
             saves (snd (snd (complete_task tid now2 w2 (fst (snd (complete_task tid now1 w1 s)))))) = 0"
proof -
  obtain i where i: "find_task_by_id (tasks s) tid = Some i"
    using find_task_by_id_present [OF assms] by blast
  have il: "i < length (tasks s)" and iid: "id' (tasks s ! i) = tid"
    using find_task_by_id_Some [OF i] by simp_all
  define s1 where "s1 = fst (snd (complete_task tid now1 w1 s))"
  have s1: "s1 = (if completed (tasks s ! i) then s
                  else s\<lparr>tasks := (tasks s)[i := (tasks s ! i)\<lparr>completed := True, completed_at := Some now1\<rparr>]\<rparr>)"
    unfolding s1_def by (rule complete_task_found [OF i])
  have i1: "find_task_by_id (tasks s1) tid = Some i"
    using i iid by (simp add: s1 find_task_by_id_list_update)
  have c1: "completed (tasks s1 ! i)"
    using il by (simp add: s1)
  have t1: "title (tasks s1 ! i) = title (tasks s ! i)"
    using il by (simp add: s1)
  have d: "complete_task tid now2 w2 s1 = (True, s1, [Print (AlreadyCompleted (title (tasks s ! i)))])"
    using i1 c1 t1 by (simp add: complete_task_def)
  have "saves (snd (snd (complete_task tid now2 w2 s1))) = 0"
    by (simp add: d saves_def)
  then show ?thesis
    using i1 d unfolding s1_def by blast
qed

theorem complete_twice_witness:
  "1 \<in> set (map id' (tasks two_tasks)) \<and>
   complete_task 1 (str ''2024-05-04T08:00:00'') Written
     (fst (snd (complete_task 1 (str ''2024-05-03T08:00:00'') (WriteFailed (str ''disk full'')) two_tasks))) =
     (True, fst (snd (complete_task 1 (str ''2024-05-03T08:00:00'') (WriteFailed (str ''disk full'')) two_tasks)),
      [Print (AlreadyCompleted (str ''A''))])"
proof -
  have h: "1 \<in> set (map id' (tasks two_tasks))"
    by (simp add: two_tasks_def)
  have t: "title (tasks two_tasks ! 0) = str ''A''"
    by (simp add: two_tasks_def)
  have f: "find_task_by_id
             (tasks (fst (snd (complete_task 1 (str ''2024-05-03T08:00:00'') (WriteFailed (str ''disk full'')) two_tasks)))) 1 = Some 0"
    by (simp add: two_tasks_def complete_task_def assign_def save_tasks_def)
  show ?thesis
    using h f t complete_twice [OF h, of "str ''2024-05-03T08:00:00''" "WriteFailed (str ''disk full'')"
        "str ''2024-05-04T08:00:00''" Written]
    by auto
qed

section \<open>The completion invariant\<close>

lemma add_task_object:
  "fst (snd (add_task ttl desc now w s)) =
     (if strip ttl = [] \<or> w \<noteq> Written then s
      else s\<lparr>tasks := tasks s @ [\<lparr>id' = next_id s, title = strip ttl, description = strip desc,
                                  completed = False, created_at = now, completed_at = None\<rparr>],
             next_id := next_id s + 1\<rparr>)"
  by (cases w) (simp_all add: add_task_def save_tasks_def Let_def)

lemma update_task_tasks:
  "\<exists>t. tasks (fst (snd (update_task tid ttl desc w s))) = tasks s \<or>
       (\<exists>i < length (tasks s).
          tasks (fst (snd (update_task tid ttl desc w s))) = (tasks s)[i := t] \<and>
          completed t = completed (tasks s ! i) \<and>
          completed_at t = completed_at (tasks s ! i))"
proof (cases "find_task_by_id (tasks s) tid")
  case None
  then show ?thesis by (simp add: update_task_def)
next
  case (Some i)
  then have il: "i < length (tasks s)"
    using find_task_by_id_Some by blast
  show ?thesis
  proof (cases "case ttl of None \<Rightarrow> False | Some x \<Rightarrow> strip x = []")
    case True
    then show ?thesis using Some by (simp add: update_task_def)
  next
    case False
    define t where "t = (case desc of None \<Rightarrow> (\<lambda>u. u) | Some d \<Rightarrow> (\<lambda>u. u\<lparr>description := strip d\<rparr>))
                          ((case ttl of None \<Rightarrow> (\<lambda>u. u) | Some x \<Rightarrow> (\<lambda>u. u\<lparr>title := strip x\<rparr>))
                             (tasks s ! i))"
    have "tasks (fst (snd (update_task tid ttl desc w s))) = (tasks s)[i := t]"
      using Some False il
      by (cases w; cases ttl; cases desc)
         (simp_all add: update_task_def assign_def save_tasks_def Let_def t_def)
    moreover have "completed t = completed (tasks s ! i)" "completed_at t = completed_at (tasks s ! i)"
      by (cases ttl; cases desc; simp add: t_def)+
    ultimately show ?thesis using il by blast
  qed
qed

lemma completion_consistent_list_update:
  assumes "completion_consistent ts" and "(\<not> completed t) = (completed_at t = None)"
  shows "completion_consistent (ts[i := t])"
proof -
  have "set (ts[i := t]) \<subseteq> insert t (set ts)"
    by (rule set_update_subset_insert)
  then show ?thesis
    using assms by (auto simp: completion_consistent_def list_all_iff)
qed

lemma add_task_consistent:
  "completion_consistent (tasks s) \<Longrightarrow>
   completion_consistent (tasks (fst (snd (add_task ttl desc now w s))))"
  by (simp add: add_task_object completion_consistent_def)

lemma update_task_consistent:
  assumes "completion_consistent (tasks s)"
  shows "completion_consistent (tasks (fst (snd (update_task tid ttl desc w s))))"
proof -
  obtain t where t: "tasks (fst (snd (update_task tid ttl desc w s))) = tasks s \<or>
       (\<exists>i < length (tasks s).
          tasks (fst (snd (update_task tid ttl desc w s))) = (tasks s)[i := t] \<and>
          completed t = completed (tasks s ! i) \<and>
          completed_at t = completed_at (tasks s ! i))"
    using update_task_tasks by blast
  then show ?thesis
  proof
    assume "tasks (fst (snd (update_task tid ttl desc w s))) = tasks s"
    then show ?thesis using assms by simp
  next
    assume "\<exists>i < length (tasks s).
          tasks (fst (snd (update_task tid ttl desc w s))) = (tasks s)[i := t] \<and>
          completed t = completed (tasks s ! i) \<and>
          completed_at t = completed_at (tasks s ! i)"
    then obtain i where i: "i < length (tasks s)"
      and u: "tasks (fst (snd (update_task tid ttl desc w s))) = (tasks s)[i := t]"
      and c: "completed t = completed (tasks s ! i)" "completed_at t = completed_at (tasks s ! i)"
      by blast
    have "(\<not> completed (tasks s ! i)) = (completed_at (tasks s ! i) = None)"
      using assms i by (simp add: completion_consistent_def list_all_length)
    then have "(\<not> completed t) = (completed_at t = None)"
      using c by simp
    then show ?thesis
      using u completion_consistent_list_update [OF assms] by simp
  qed
qed

lemma complete_task_consistent:
  assumes "completion_consistent (tasks s)"
  shows "completion_consistent (tasks (fst (snd (complete_task tid now w s))))"
proof (cases "find_task_by_id (tasks s) tid")
  case None
  then show ?thesis using assms by (simp add: complete_task_def)
next
  case (Some i)
  show ?thesis
    using assms completion_consistent_list_update [OF assms, of
        "(tasks s ! i)\<lparr>completed := True, completed_at := Some now\<rparr>" i]
    by (simp add: complete_task_found [OF Some])
qed

lemma uncomplete_task_consistent:
  assumes "completion_consistent (tasks s)"
  shows "completion_consistent (tasks (fst (snd (uncomplete_task tid w s))))"
proof (cases "find_task_by_id (tasks s) tid")
  case None
  then show ?thesis using assms by (simp add: uncomplete_task_def)
next
  case (Some i)
  show ?thesis
    using assms completion_consistent_list_update [OF assms, of
        "(tasks s ! i)\<lparr>completed := False, completed_at := None\<rparr>" i]
    by (simp add: uncomplete_task_found [OF Some])
qed

lemma delete_task_tasks:
  "tasks (fst (snd (delete_task tid answer w s))) = tasks s \<or>
   tasks (fst (snd (delete_task tid answer w s))) = filter (\<lambda>u. id' u \<noteq> tid) (tasks s)"
  by (cases w; cases "find_task_by_id (tasks s) tid")
     (simp_all add: delete_task_def save_tasks_def Let_def)

lemma delete_task_consistent:
  assumes "completion_consistent (tasks s)"
  shows "completion_consistent (tasks (fst (snd (delete_task tid answer w s))))"
  using assms delete_task_tasks [of tid answer w s]
  by (auto simp: completion_consistent_def list_all_iff)

text \<open>
  C8. The invariant that a task is pending exactly when its \<open>completed_at\<close> is
  \<open>None\<close> is preserved by each of Add, Update, Complete, Uncomplete and Delete:
  from a store whose tasks all satisfy it, the store after the call satisfies
  it, for all arguments, clock values, answers and write outcomes.
\<close>

theorem completion_consistent_preserved:
  assumes "completion_consistent (tasks s)"
  shows "completion_consistent (tasks (fst (snd (add_task ttl desc now1 w1 s)))) \<and>
         completion_consistent (tasks (fst (snd (update_task tid2 new_ttl new_desc w2 s)))) \<and>
         completion_consistent (tasks (fst (snd (complete_task tid3 now3 w3 s)))) \<and>
         completion_consistent (tasks (fst (snd (uncomplete_task tid4 w4 s)))) \<and>
         completion_consistent (tasks (fst (snd (delete_task tid5 answer w5 s))))"
  using assms
  by (simp add: add_task_consistent update_task_consistent complete_task_consistent
      uncomplete_task_consistent delete_task_consistent)

theorem completion_consistent_preserved_witness:
  "completion_consistent (tasks two_tasks) \<and>
   completion_consistent (tasks (fst (snd (add_task (str ''C'') (str ''third'') (str ''2024-05-03T08:00:00'') Written two_tasks)))) \<and>
   completion_consistent (tasks (fst (snd (update_task 1 (Some (str ''A2'')) None Written two_tasks)))) \<and>
   completion_consistent (tasks (fst (snd (complete_task 1 (str ''2024-05-03T08:00:00'') (WriteFailed (str ''disk full'')) two_tasks)))) \<and>
   completion_consistent (tasks (fst (snd (uncomplete_task 2 Written two_tasks)))) \<and>
   completion_consistent (tasks (fst (snd (delete_task 2 (str ''y'') Written two_tasks))))"
proof -
  have h: "completion_consistent (tasks two_tasks)"
    by (simp add: two_tasks_def completion_consistent_def)
  show ?thesis
    using h completion_consistent_preserved [OF h, of "str ''C''" "str ''third''" "str ''2024-05-03T08:00:00''"
        Written 1 "Some (str ''A2'')" None Written 1 "str ''2024-05-03T08:00:00''" "WriteFailed (str ''disk full'')"
        2 Written 2 "str ''y''" Written]
    by simp
qed

section \<open>Stats\<close>

text \<open>
  C9. For every store, Stats returns counts with total = completed + pending,
  where completed is the number of positions holding a completed task, pending
  the number of positions holding a pending one and total the length of the
  list; the object is returned as it was and nothing is printed or written.
\<close>

theorem get_task_stats_counts:
  "total (fst (get_task_stats s)) =
     completed_count (fst (get_task_stats s)) + pending (fst (get_task_stats s)) \<and>
   completed_count (fst (get_task_stats s)) =
     int (card {i. i < length (tasks s) \<and> completed (tasks s ! i)}) \<and>
   pending (fst (get_task_stats s)) =
     int (card {i. i < length (tasks s) \<and> \<not> completed (tasks s ! i)}) \<and>
   total (fst (get_task_stats s)) = int (length (tasks s)) \<and>
   snd (get_task_stats s) = (s, [])"
proof -
  have c: "length (filter completed (tasks s)) = card {i. i < length (tasks s) \<and> completed (tasks s ! i)}"
    by (rule length_filter_conv_card)
  have p: "length (filter (\<lambda>t. \<not> completed t) (tasks s)) =
           card {i. i < length (tasks s) \<and> \<not> completed (tasks s ! i)}"
    by (rule length_filter_conv_card)
  have "length (filter completed (tasks s)) + length (filter (\<lambda>t. \<not> completed t) (tasks s)) =
        length (tasks s)"
    by (rule sum_length_filter_compl)
  then have "int (length (tasks s)) - int (length (filter completed (tasks s))) =
             int (length (filter (\<lambda>t. \<not> completed t) (tasks s)))"
    by linarith
  then show ?thesis
    using c p by (simp add: get_task_stats_def Let_def)
qed

section \<open>Sequences of Add\<close>

text \<open>\<open>__init__\<close> sets the counter above every id of the loaded list.\<close>

lemma get_next_id_above: "list_all (\<lambda>t. id' t < get_next_id ts) ts"
proof -
  have m: "m \<le> max_id m us \<and> (\<forall>u\<in>set us. id' u \<le> max_id m us)" for m us
  proof (induction us arbitrary: m)
    case Nil
    then show ?case by simp
  next
    case (Cons u us)
    show ?case
      using Cons.IH [of "max m (id' u)"] by auto
  qed
  show ?thesis
  proof (cases ts)
    case Nil
    then show ?thesis by simp
  next
    case (Cons t us)
    then show ?thesis
      using m [of "id' t" us] by (fastforce simp: get_next_id_def list_all_iff)
  qed
qed

lemma init_counter_above: "counter_above (init f ts)"
  using get_next_id_above [of ts] by (simp add: init_def counter_above_def)


lemma add_calls_new:
  "\<exists>new. tasks (add_calls cs s) = tasks s @ new \<and>
         length new = length (filter (\<lambda>c. strip (fst c) \<noteq> [] \<and> snd (snd (snd c)) = Written) cs) \<and>
         sorted_wrt (<) (map id' new) \<and>
         (\<forall>t\<in>set new. next_id s \<le> id' t \<and> id' t < next_id s + int (length new)) \<and>
         next_id (add_calls cs s) = next_id s + int (length new)"
proof (induction cs arbitrary: s)
  case Nil
  then show ?case by simp
next
  case (Cons c cs)
  obtain ttl desc now w where c: "c = (ttl, desc, now, w)"
    by (cases c)
  define s' where "s' = fst (snd (add_task ttl desc now w s))"
  have step: "add_calls (c # cs) s = add_calls cs s'"
    by (simp add: c s'_def)
  obtain new where new: "tasks (add_calls cs s') = tasks s' @ new"
    and len: "length new = length (filter (\<lambda>c. strip (fst c) \<noteq> [] \<and> snd (snd (snd c)) = Written) cs)"
    and srt: "sorted_wrt (<) (map id' new)"
    and low: "\<forall>t\<in>set new. next_id s' \<le> id' t \<and> id' t < next_id s' + int (length new)"
    and cnt: "next_id (add_calls cs s') = next_id s' + int (length new)"
    using Cons.IH [of s'] by blast
  show ?case
  proof (cases "strip ttl = [] \<or> w \<noteq> Written")
    case True
    then have "s' = s"
      by (simp add: s'_def add_task_object)
    then show ?thesis
      using True new len srt low cnt step c by auto
  next
    case False
    define t where "t = \<lparr>id' = next_id s, title = strip ttl, description = strip desc,
                          completed = False, created_at = now, completed_at = None\<rparr>"
    have s': "s' = s\<lparr>tasks := tasks s @ [t], next_id := next_id s + 1\<rparr>"
      using False by (simp add: s'_def add_task_object t_def)
    have "tasks (add_calls (c # cs) s) = tasks s @ (t # new)"
      using new step s' by simp
    moreover have "length (t # new) =
        length (filter (\<lambda>c. strip (fst c) \<noteq> [] \<and> snd (snd (snd c)) = Written) (c # cs))"
      using False len c by simp
    moreover have "sorted_wrt (<) (map id' (t # new))"
      using srt low s' by (auto simp: t_def)
    moreover have "\<forall>u\<in>set (t # new). next_id s \<le> id' u \<and>
                     id' u < next_id s + int (length (t # new))"
      using low s' by (auto simp: t_def)
    moreover have "next_id (add_calls (c # cs) s) = next_id s + int (length (t # new))"
      using cnt step s' by simp
    ultimately show ?thesis by blast
  qed
qed

text \<open>
  C2. From a store whose counter is above every id present, after any sequence
  of Add calls with titles that are not blank (each save succeeding or
  failing): the old tasks are still the front of the list, one task was
  appended for each call whose save succeeded, the ids of the appended tasks
  are strictly increasing in the order of the calls and above every old id (so
  each differs from every other id in the store, and unique ids stay unique),
  and the counter is again above every id.
\<close>

theorem add_calls_ids:
  assumes "counter_above s" and "\<forall>c\<in>set cs. strip (fst c) \<noteq> []"
  shows "take (length (tasks s)) (tasks (add_calls cs s)) = tasks s \<and>
         length (tasks (add_calls cs s)) =
           length (tasks s) + length (filter (\<lambda>c. snd (snd (snd c)) = Written) cs) \<and>
         sorted_wrt (<) (map id' (drop (length (tasks s)) (tasks (add_calls cs s)))) \<and>
         (\<forall>t\<in>set (drop (length (tasks s)) (tasks (add_calls cs s))).
            \<forall>u\<in>set (tasks s). id' u < id' t) \<and>
         (ids_unique (tasks s) \<longrightarrow> ids_unique (tasks (add_calls cs s))) \<and>
         counter_above (add_calls cs s)"
proof -
  obtain new where new: "tasks (add_calls cs s) = tasks s @ new"
    and len: "length new = length (filter (\<lambda>c. strip (fst c) \<noteq> [] \<and> snd (snd (snd c)) = Written) cs)"
    and srt: "sorted_wrt (<) (map id' new)"
    and low: "\<forall>t\<in>set new. next_id s \<le> id' t \<and> id' t < next_id s + int (length new)"
    and cnt: "next_id (add_calls cs s) = next_id s + int (length new)"
    using add_calls_new [of cs s] by blast
  have old: "\<forall>u\<in>set (tasks s). id' u < next_id s"
    using assms(1) by (simp add: counter_above_def list_all_iff)
  have f: "filter (\<lambda>c. strip (fst c) \<noteq> [] \<and> snd (snd (snd c)) = Written) cs =
           filter (\<lambda>c. snd (snd (snd c)) = Written) cs"
    using assms(2) by (auto intro: filter_cong)
  have dr: "drop (length (tasks s)) (tasks (add_calls cs s)) = new"
    by (simp add: new)
  have above: "\<forall>t\<in>set new. \<forall>u\<in>set (tasks s). id' u < id' t"
    using low old by fastforce
  have dist: "distinct (map id' new)"
    using srt by (simp add: strict_sorted_iff)
  have uniq: "ids_unique (tasks s) \<longrightarrow> ids_unique (tasks (add_calls cs s))"
    using dist above by (fastforce simp: ids_unique_def new)
  have up: "counter_above (add_calls cs s)"
    using low old cnt by (fastforce simp: counter_above_def list_all_iff new)
  have ln: "length (tasks (add_calls cs s)) =
           length (tasks s) + length (filter (\<lambda>c. snd (snd (snd c)) = Written) cs)"
    using len f by (simp add: new)
  have tk: "take (length (tasks s)) (tasks (add_calls cs s)) = tasks s"
    by (simp add: new)
  show ?thesis
    using tk ln srt above uniq up unfolding dr by blast
qed

theorem add_calls_ids_witness:
  "counter_above one_task \<and> list_all (\<lambda>c. strip (fst c) \<noteq> []) three_calls \<and>
   map id' (tasks (add_calls three_calls one_task)) = [1, 2, 3] \<and>
   next_id (add_calls three_calls one_task) = 4"
proof -
  have h1: "counter_above one_task"
    by (simp add: one_task_def counter_above_def)
  have h2: "\<forall>c\<in>set three_calls. strip (fst c) \<noteq> []"
    by (simp add: three_calls_def strip_def is_space_def str_def)
  show ?thesis
    using h1 h2 add_calls_ids [OF h1 h2]
    by (simp add: three_calls_def one_task_def add_task_def save_tasks_def strip_def is_space_def str_def Let_def)
qed

section \<open>Load\<close>

lemma json_of_task_inj: "json_of_task t = json_of_task u \<Longrightarrow> t = u"
  by (cases t; cases u) (auto simp: json_of_task_def split: option.splits)

text \<open>
  C10. Load validates nothing. When the file exists and parses, the value
  parsed is returned as it is, with nothing printed. When Load returns a value,
  it is the value parsed from an existing file, or else the empty list, and
  the empty list as fallback only when the file is missing or the parser
  raised \<open>JSONDecodeError\<close> (or opening raised \<open>FileNotFoundError\<close>). The file
  holding \<open>unvalidated_tasks\<close> is returned unchanged, and the store built from
  it has duplicate ids, a blank title and tasks whose \<open>completed\<close> and
  \<open>completed_at\<close> disagree.
\<close>

theorem load_tasks_unvalidated:
  "load_tasks True (Parsed v) = (Inr v, []) \<and>
   (fst (load_tasks ex r) = Inr v' \<longrightarrow>
      (ex \<and> r = Parsed v') \<or>
      (v' = JList [] \<and> (\<not> ex \<or> (\<exists>e. r = JSONDecodeError e \<or> r = FileNotFoundError e)))) \<and>
   fst (load_tasks True (Parsed (JList (map json_of_task unvalidated_tasks)))) =
     Inr (JList (map json_of_task unvalidated_tasks)) \<and>
   \<not> ids_unique (tasks (init f unvalidated_tasks)) \<and>
   \<not> titles_nonempty (tasks (init f unvalidated_tasks)) \<and>
   \<not> completion_consistent (tasks (init f unvalidated_tasks))"
proof -
  have a: "load_tasks True (Parsed v) = (Inr v, [])"
    by (simp add: load_tasks_def)
  have b: "fst (load_tasks ex r) = Inr v' \<longrightarrow>
      (ex \<and> r = Parsed v') \<or>
      (v' = JList [] \<and> (\<not> ex \<or> (\<exists>e. r = JSONDecodeError e \<or> r = FileNotFoundError e)))"
    by (cases r) (auto simp: load_tasks_def)
  have c: "fst (load_tasks True (Parsed (JList (map json_of_task unvalidated_tasks)))) =
     Inr (JList (map json_of_task unvalidated_tasks))"
    by (simp add: load_tasks_def)
  have d: "\<not> ids_unique (tasks (init f unvalidated_tasks))"
    by (simp add: init_def unvalidated_tasks_def ids_unique_def)
  have e: "\<not> titles_nonempty (tasks (init f unvalidated_tasks))"
    by (simp add: init_def unvalidated_tasks_def titles_nonempty_def strip_def is_space_def str_def)
  have g: "\<not> completion_consistent (tasks (init f unvalidated_tasks))"
    by (simp add: init_def unvalidated_tasks_def completion_consistent_def)
  show ?thesis
    using a b c d e g by blast
qed

theorem load_tasks_unvalidated_witness:
  "fst (load_tasks True (JSONDecodeError (str ''Expecting value''))) = Inr (JList []) \<and>
   fst (load_tasks False (OtherError (str ''unused''))) = Inr (JList []) \<and>
   load_tasks True (Parsed (JInt 42)) = (Inr (JInt 42), [])"
proof -
  have h1: "fst (load_tasks True (JSONDecodeError (str ''Expecting value''))) = Inr (JList [])"
    by (simp add: load_tasks_def)
  have h2: "fst (load_tasks False (OtherError (str ''unused''))) = Inr (JList [])"
    by (simp add: load_tasks_def)
  show ?thesis
    using h1 h2
      load_tasks_unvalidated [of "JInt 42" True "JSONDecodeError (str ''Expecting value'')" "JList []" "str ''tasks.json''"]
    by simp
qed

end
